theory Spec2Isabelle
  imports Complex_Main "HOL-Library.Multiset"
begin

section \<open>Python strings\<close>

text \<open>
  The transcription service (\<^verbatim>\<open>backend/services/transcription.py\<close>, class
  \<^verbatim>\<open>TranscriptionService\<close>) works on Python \<^verbatim>\<open>str\<close> values. A \<^verbatim>\<open>str\<close> is modelled
  as a \<^typ>\<open>string\<close>, one \<^typ>\<open>char\<close> per code point, which covers the code points
  below 256. Python floats are modelled as exact reals: rounding is not part of the model.
\<close>

definition isspace :: "char \<Rightarrow> bool" where
  \<comment> \<open>\<^verbatim>\<open>str.isspace\<close> on one character, the separators of \<^verbatim>\<open>str.split()\<close> and the class
      \<^verbatim>\<open>\s\<close> of \<^verbatim>\<open>re\<close>: TAB..CR, FS..US, SPACE, NEL, NBSP.\<close>
  "isspace c = (of_char c \<in> {9, 10, 11, 12, 13, 28, 29, 30, 31, 32, 133, 160 :: nat})"

fun split_from :: "string \<Rightarrow> string \<Rightarrow> string list" where
  "split_from cur [] = (if cur = [] then [] else [cur])"
| "split_from cur (c # cs) =
     (if isspace c then (if cur = [] then split_from [] cs else cur # split_from [] cs)
      else split_from (cur @ [c]) cs)"

definition str_split :: "string \<Rightarrow> string list" where
  \<comment> \<open>\<^verbatim>\<open>s.split()\<close>: the maximal runs of non-whitespace characters, in order.\<close>
  "str_split s = split_from [] s"

definition word_count :: "string \<Rightarrow> nat" where
  \<comment> \<open>\<^verbatim>\<open>len([w for w in transcript.split() if w])\<close>\<close>
  "word_count transcript = length (filter (\<lambda>w. w \<noteq> []) (str_split transcript))"

definition py_int :: "real \<Rightarrow> int" where
  \<comment> \<open>\<^verbatim>\<open>int(x)\<close> on a float: truncation towards zero.\<close>
  "py_int x = (if 0 \<le> x then \<lfloor>x\<rfloor> else \<lceil>x\<rceil>)"

section \<open>Speaking rate\<close>

text \<open>
  A timestamp entry is the dictionary
  \<^verbatim>\<open>{'word': ..., 'start_time': ..., 'end_time': ...}\<close> that \<^verbatim>\<open>transcribe\<close> builds.
\<close>

record word_timing =
  word :: string
  start_time :: real
  end_time :: real

text \<open>
  Two integer constants of \<^verbatim>\<open>_calculate_fallback_speaking_rate\<close> cannot be read from the
  source file (their value byte is not preserved; both lie between 128 and 191 and they
  differ). They are parameters of the model.
\<close>

record fallback_rates =
  rate_below_100 :: int
  rate_otherwise :: int

definition calculate_fallback_speaking_rate :: "fallback_rates \<Rightarrow> string \<Rightarrow> int option" where
  "calculate_fallback_speaking_rate k transcript =
     (let total_words = word_count transcript in
      if total_words = 0 then None
      else if total_words < 20 then Some 120
      else if total_words < 100 then Some (rate_below_100 k)
      else Some (rate_otherwise k))"

definition calculate_speaking_rate ::
    "fallback_rates \<Rightarrow> string \<Rightarrow> word_timing list \<Rightarrow> int option" where
  "calculate_speaking_rate k transcript timestamps =
     (if timestamps = [] \<or> length timestamps < 2
      then calculate_fallback_speaking_rate k transcript
      else
        let total_words = word_count transcript;
            first_time = start_time (timestamps ! 0);
            last_time = end_time (last timestamps);
            duration_minutes = (last_time - first_time) / 60
        in if duration_minutes \<le> 0 then calculate_fallback_speaking_rate k transcript
           else
             let wpm = py_int (real total_words / duration_minutes)
             in if wpm < 30 \<or> wpm > 300 then calculate_fallback_speaking_rate k transcript
                else Some wpm)"

text \<open>
  Modelled from the spec: the values of the two unreadable constants of
  \<^verbatim>\<open>_calculate_fallback_speaking_rate\<close>, which section 4.2 of the specification gives as
  about 130 and about 150 words per minute. Only the closed examples below use them.
\<close>

definition rates_from_spec :: fallback_rates where
  "rates_from_spec = \<lparr>rate_below_100 = 130, rate_otherwise = 150\<rparr>"

section \<open>The regular expressions of the repetition cleaner\<close>

definition isword :: "char \<Rightarrow> bool" where
  \<comment> \<open>The class \<^verbatim>\<open>\w\<close> of \<^verbatim>\<open>re\<close> on a \<^verbatim>\<open>str\<close>: alphanumeric or underscore.\<close>
  "isword c =
     (let n = (of_char c :: nat) in
      (48 \<le> n \<and> n \<le> 57) \<or> (65 \<le> n \<and> n \<le> 90) \<or> n = 95 \<or> (97 \<le> n \<and> n \<le> 122) \<or>
      n = 170 \<or> n = 178 \<or> n = 179 \<or> n = 181 \<or> n = 185 \<or> n = 186 \<or>
      (188 \<le> n \<and> n \<le> 190) \<or> (192 \<le> n \<and> n \<le> 214) \<or> (216 \<le> n \<and> n \<le> 246) \<or>
      248 \<le> n)"

definition lower_char :: "char \<Rightarrow> char" where
  \<comment> \<open>\<^verbatim>\<open>str.lower\<close> on one character; \<^verbatim>\<open>re.IGNORECASE\<close> compares characters by it.\<close>
  "lower_char c =
     (let n = (of_char c :: nat) in
      if (65 \<le> n \<and> n \<le> 90) \<or> (192 \<le> n \<and> n \<le> 214) \<or> (216 \<le> n \<and> n \<le> 222)
      then char_of (n + 32) else c)"

definition str_lower :: "string \<Rightarrow> string" where
  "str_lower s = map lower_char s"

fun join :: "string \<Rightarrow> string list \<Rightarrow> string" where
  \<comment> \<open>\<^verbatim>\<open>sep.join(xs)\<close>\<close>
  "join sep [] = []"
| "join sep [x] = x"
| "join sep (x # y # ys) = x @ sep @ join sep (y # ys)"

fun ci_prefix :: "string \<Rightarrow> string \<Rightarrow> string option" where
  \<comment> \<open>A literal (an escaped phrase, or the back-reference \<^verbatim>\<open>\1\<close>) matched at the start of
      the text, ignoring case; the result is the text after the match.\<close>
  "ci_prefix [] s = Some s"
| "ci_prefix (p # ps) [] = None"
| "ci_prefix (p # ps) (c # cs) = (if lower_char p = lower_char c then ci_prefix ps cs else None)"

definition at_word_end :: "string \<Rightarrow> bool" where
  \<comment> \<open>\<^verbatim>\<open>\b\<close> after a word character: the text ends or goes on with a non-word character.\<close>
  "at_word_end s = (case s of [] \<Rightarrow> True | c # _ \<Rightarrow> \<not> isword c)"

fun spaces_then :: "string \<Rightarrow> string \<Rightarrow> string option" where
  \<comment> \<open>\<^verbatim>\<open>\s+\<close> followed by a literal: the greedy \<^verbatim>\<open>\s+\<close> takes the longest run first and
      gives characters back while the literal does not match.\<close>
  "spaces_then lit [] = None"
| "spaces_then lit (c # cs) =
     (if isspace c
      then (case spaces_then lit cs of Some r \<Rightarrow> Some r | None \<Rightarrow> ci_prefix lit cs)
      else None)"

definition match_phrases :: "string \<Rightarrow> string \<Rightarrow> string \<Rightarrow> string option" where
  \<comment> \<open>\<^verbatim>\<open>re.escape(phrase1) + r'\s+' + re.escape(phrase2)\<close> with \<^verbatim>\<open>re.IGNORECASE\<close>, matched at
      the start of the text.\<close>
  "match_phrases phrase1 phrase2 s =
     (case ci_prefix phrase1 s of None \<Rightarrow> None | Some r \<Rightarrow> spaces_then phrase2 r)"

lemma ci_prefix_length: "ci_prefix p s = Some r \<Longrightarrow> length r \<le> length s"
  by (induction p s rule: ci_prefix.induct) (auto split: if_splits)

lemma spaces_then_length: "spaces_then lit s = Some r \<Longrightarrow> length r < length s"
proof (induction lit s rule: spaces_then.induct)
  case (1 lit)
  then show ?case by simp
next
  case (2 lit c cs)
  then show ?case
    by (auto split: if_splits option.splits dest: ci_prefix_length)
qed

lemma match_phrases_length: "match_phrases p1 p2 s = Some r \<Longrightarrow> length r < length s"
  unfolding match_phrases_def
  by (auto split: option.splits dest!: ci_prefix_length spaces_then_length)

function sub_phrases :: "(string \<Rightarrow> string) \<Rightarrow> string \<Rightarrow> string \<Rightarrow> string \<Rightarrow> string" where
  \<comment> \<open>\<^verbatim>\<open>re.sub(pattern, repl, text, flags=re.IGNORECASE)\<close> for the pattern of
      \<^const>\<open>match_phrases\<close>: leftmost matches, not overlapping; \<open>repl\<close> maps the matched
      text to its replacement.\<close>
  "sub_phrases repl phrase1 phrase2 [] = []"
| "sub_phrases repl phrase1 phrase2 (c # cs) =
     (case match_phrases phrase1 phrase2 (c # cs) of
        Some r \<Rightarrow> repl (take (length (c # cs) - length r) (c # cs)) @ sub_phrases repl phrase1 phrase2 r
      | None \<Rightarrow> c # sub_phrases repl phrase1 phrase2 cs)"
  by pat_completeness auto
termination
  by (relation "measure (\<lambda>(repl, p1, p2, s). length s)")
     (auto dest: match_phrases_length)

fun repetition :: "string \<Rightarrow> string \<Rightarrow> string option" where
  \<comment> \<open>One round of the group \<^verbatim>\<open>(\s+\1\b)\<close>, where \<open>w\<close> is the text of group 1.\<close>
  "repetition w [] = None"
| "repetition w (c # cs) =
     (if isspace c
      then (case repetition w cs of
              Some r \<Rightarrow> Some r
            | None \<Rightarrow> (case ci_prefix w cs of
                         Some r \<Rightarrow> if at_word_end r then Some r else None
                       | None \<Rightarrow> None))
      else None)"

lemma repetition_length: "repetition w s = Some r \<Longrightarrow> length r < length s"
proof (induction w s rule: repetition.induct)
  case (1 w)
  then show ?case by simp
next
  case (2 w c cs)
  then show ?case
    by (auto split: if_splits option.splits dest: ci_prefix_length)
qed

function repeats :: "string \<Rightarrow> string \<Rightarrow> string" where
  \<comment> \<open>The further rounds of \<^verbatim>\<open>(\s+\1\b)+\<close>, as many as match; the result is the text after
      the last round.\<close>
  "repeats w s = (case repetition w s of None \<Rightarrow> s | Some r \<Rightarrow> repeats w r)"
  by pat_completeness auto
termination
  by (relation "measure (\<lambda>(w, s). length s)") (auto dest: repetition_length)

declare repeats.simps [simp del]

lemma repeats_length: "length (repeats w s) \<le> length s"
proof (induction w s rule: repeats.induct)
  case (1 w s)
  show ?case
  proof (cases "repetition w s")
    case None
    then show ?thesis by (simp add: repeats.simps)
  next
    case (Some r)
    with 1 have "length (repeats w r) \<le> length r" by simp
    moreover have "length r < length s" using Some by (rule repetition_length)
    ultimately show ?thesis using Some by (simp add: repeats.simps)
  qed
qed

function sub_words :: "bool \<Rightarrow> string \<Rightarrow> string" where
  \<comment> \<open>\<^verbatim>\<open>re.sub(r'\b(\w+)(\s+\1\b)+', r'\1', text, flags=re.IGNORECASE)\<close>. The flag tells
      whether the character before the text is a word character. A match starts where a word
      starts; the greedy \<^verbatim>\<open>\w+\<close> takes the whole word (a shorter one is followed by a word
      character, where \<^verbatim>\<open>\s+\<close> fails); the match is replaced by group 1.\<close>
  "sub_words prev [] = []"
| "sub_words prev (c # cs) =
     (if \<not> prev \<and> isword c
      then (case repetition (takeWhile isword (c # cs)) (dropWhile isword (c # cs)) of
              None \<Rightarrow> c # sub_words True cs
            | Some r \<Rightarrow> takeWhile isword (c # cs)
                        @ sub_words True (repeats (takeWhile isword (c # cs)) r))
      else c # sub_words (isword c) cs)"
  by pat_completeness auto
termination
proof (relation "measure (\<lambda>(prev, s). length s)", goal_cases)
  case 1
  then show ?case by simp
next
  case (2 prev c cs)
  then show ?case by simp
next
  case (3 prev c cs r)
  have "length (repeats (takeWhile isword (c # cs)) r) \<le> length r"
    by (rule repeats_length)
  moreover have "length r < length (dropWhile isword (c # cs))"
    using 3 by (auto dest: repetition_length)
  moreover have "length (dropWhile isword (c # cs)) \<le> length (c # cs)"
    by (rule length_dropWhile_le)
  ultimately show ?case by simp
next
  case (4 prev c cs)
  then show ?case by simp
qed

section \<open>The repetition cleaner\<close>

text \<open>
  An exception is modelled by its message. \<^verbatim>\<open>re.sub\<close> takes a replacement string without
  a backslash literally; one with a backslash is parsed as a template by the \<^verbatim>\<open>re\<close>
  library, which raises \<^verbatim>\<open>re.error\<close> or yields a function of the matched text. That
  parser is outside this repository and is a parameter of the model.
\<close>

datatype error = Error string

type_synonym template_parser = "string \<Rightarrow> error + (string \<Rightarrow> string)"

definition compile_repl :: "template_parser \<Rightarrow> string \<Rightarrow> error + (string \<Rightarrow> string)" where
  "compile_repl parse_template repl =
     (if CHR 0x5C \<in> set repl then parse_template repl else Inr (\<lambda>matched. repl))"

fun window_loop ::
    "template_parser \<Rightarrow> string list \<Rightarrow> nat \<Rightarrow> nat list \<Rightarrow> string \<Rightarrow> error + string" where
  \<comment> \<open>\<^verbatim>\<open>for i in range(len(words) - phrase_len * 2 + 1)\<close>\<close>
  "window_loop pt words phrase_len [] cleaned_text = Inr cleaned_text"
| "window_loop pt words phrase_len (i # is) cleaned_text =
     (let phrase1 = join '' '' (take phrase_len (drop i words));
          phrase2 = join '' '' (take phrase_len (drop (i + phrase_len) words))
      in if str_lower phrase1 = str_lower phrase2
         then (case compile_repl pt phrase1 of
                 Inl e \<Rightarrow> Inl e
               | Inr repl \<Rightarrow>
                   window_loop pt words phrase_len is
                     (sub_phrases repl phrase1 phrase2 cleaned_text))
         else window_loop pt words phrase_len is cleaned_text)"

fun phrase_loop ::
    "template_parser \<Rightarrow> string list \<Rightarrow> nat list \<Rightarrow> string \<Rightarrow> error + string" where
  \<comment> \<open>\<^verbatim>\<open>for phrase_len in range(3, 6)\<close>\<close>
  "phrase_loop pt words [] cleaned_text = Inr cleaned_text"
| "phrase_loop pt words (phrase_len # ns) cleaned_text =
     (if length words < phrase_len * 2 then phrase_loop pt words ns cleaned_text
      else (case window_loop pt words phrase_len
                   [0 ..< length words - phrase_len * 2 + 1] cleaned_text of
              Inl e \<Rightarrow> Inl e
            | Inr t \<Rightarrow> phrase_loop pt words ns t))"

definition clean_repetitions :: "template_parser \<Rightarrow> string \<Rightarrow> error + string" where
  "clean_repetitions pt text =
     (let words = str_split text in
      if length words < 6 then Inr text
      else (case phrase_loop pt words [3 ..< 6] text of
              Inl e \<Rightarrow> Inl e
            | Inr cleaned_text \<Rightarrow> Inr (sub_words False cleaned_text)))"

definition no_templates :: template_parser where
  \<comment> \<open>A template parser that rejects every template; the closed examples below contain no
      backslash and never call it.\<close>
  "no_templates repl = Inl (Error ''bad escape'')"

text \<open>
  Notions for stating the properties of the cleaner. A run of further occurrences of a word:
  each occurrence with the whitespace before it.
\<close>

fun run_text :: "(string \<times> string) list \<Rightarrow> string" where
  "run_text [] = []"
| "run_text ((sep, v) # reps) = sep @ v @ run_text reps"

definition word_before :: "string \<Rightarrow> string" where
  \<comment> \<open>The word that ends a text, its trailing whitespace apart; empty if there is none.\<close>
  "word_before p = rev (takeWhile isword (dropWhile isspace (rev p)))"

definition word_after :: "string \<Rightarrow> string" where
  \<comment> \<open>The word that starts a text, its leading whitespace apart; empty if there is none.\<close>
  "word_after s = takeWhile isword (dropWhile isspace s)"

definition repeated_window :: "string list \<Rightarrow> bool" where
  \<comment> \<open>Some pair of adjacent windows that the loops of \<^verbatim>\<open>_clean_repetitions\<close> compare is
      identical, ignoring case.\<close>
  "repeated_window words =
     (\<exists>phrase_len\<in>set [3 ..< 6]. \<not> length words < phrase_len * 2 \<and>
        (\<exists>i\<in>set [0 ..< length words - phrase_len * 2 + 1].
           str_lower (join '' '' (take phrase_len (drop i words)))
             = str_lower (join '' '' (take phrase_len (drop (i + phrase_len) words)))))"

definition blocked :: "bool \<Rightarrow> string \<Rightarrow> string \<Rightarrow> bool" where
  \<comment> \<open>No word of the text \<open>q\<close> that is followed by whitespace up to the end of \<open>q\<close> equals
      \<open>w\<close>, ignoring case. The flag tells whether the character before \<open>q\<close> is a word
      character, in which case a word at the very start of \<open>q\<close> does not count.\<close>
  "blocked prev q w =
     (\<forall>q0 v ws. q = q0 @ v @ ws \<and> v \<noteq> [] \<and> (\<forall>c\<in>set v. isword c) \<and>
        ws \<noteq> [] \<and> (\<forall>c\<in>set ws. isspace c) \<and> (q0 = [] \<longrightarrow> \<not> prev) \<and>
        (q0 \<noteq> [] \<longrightarrow> \<not> isword (last q0))
        \<longrightarrow> map lower_char v \<noteq> map lower_char w)"

section \<open>The filler-word densifier\<close>

definition fillers :: "string list" where
  \<comment> \<open>The alternatives of \<^verbatim>\<open>\b(um|uh|like|you know)\b\<close>, in their order.\<close>
  "fillers = [''um'', ''uh'', ''like'', ''you know'']"

definition filler_at :: "string \<Rightarrow> string option" where
  \<comment> \<open>\<^verbatim>\<open>(um|uh|like|you know)\b\<close> matched at the start of the text: the text after the
      first alternative that matches.\<close>
  "filler_at s =
     (case filter (\<lambda>f. take (length f) s = f \<and> at_word_end (drop (length f) s)) fillers of
        [] \<Rightarrow> None
      | f # _ \<Rightarrow> Some (drop (length f) s))"

lemma filler_at_length:
  assumes "filler_at s = Some r"
  shows "length r < length s"
proof -
  from assms obtain f fs where
    f: "filter (\<lambda>f. take (length f) s = f \<and> at_word_end (drop (length f) s)) fillers = f # fs"
    and r: "r = drop (length f) s"
    by (auto simp add: filler_at_def split: list.splits)
  from f have "f \<in> set (filter (\<lambda>f. take (length f) s = f \<and> at_word_end (drop (length f) s)) fillers)"
    by simp
  then have "f \<in> set fillers" and t: "take (length f) s = f"
    by auto
  then have "f \<noteq> []"
    by (auto simp add: fillers_def)
  with t have "s \<noteq> []" "0 < length f"
    by auto
  with r show ?thesis
    by simp
qed

function count_fillers :: "bool \<Rightarrow> string \<Rightarrow> nat" where
  \<comment> \<open>\<^verbatim>\<open>len(re.findall(r'\b(um|uh|like|you know)\b', text))\<close>; the flag tells whether the
      character before the text is a word character.\<close>
  "count_fillers prev [] = 0"
| "count_fillers prev (c # cs) =
     (if prev then count_fillers (isword c) cs
      else (case filler_at (c # cs) of
              Some r \<Rightarrow> Suc (count_fillers True r)
            | None \<Rightarrow> count_fillers (isword c) cs))"
  by pat_completeness auto
termination
  by (relation "measure (\<lambda>(prev, s). length s)") (auto dest: filler_at_length)

definition is_punct :: "char \<Rightarrow> bool" where
  \<comment> \<open>The class \<^verbatim>\<open>[.!?,;]\<close>\<close>
  "is_punct c = (c \<in> {CHR ''.'', CHR ''!'', CHR ''?'', CHR '','', CHR '';''})"

definition at_dollar :: "string \<Rightarrow> bool" where
  \<comment> \<open>\<^verbatim>\<open>$\<close> without \<^verbatim>\<open>re.MULTILINE\<close>: at the end of the text, or before a final newline.\<close>
  "at_dollar s = (s = [] \<or> s = [CHR 0x0A])"

fun segment_at :: "string \<Rightarrow> string \<times> string" where
  \<comment> \<open>\<^verbatim>\<open>[^.!?,;]*?(?:[.!?,;]|$)\<close> matched at the start of the text: the match and the text
      after it. The lazy star first tries to end the match, then takes one more character.\<close>
  "segment_at [] = ([], [])"
| "segment_at (c # cs) =
     (if is_punct c then ([c], cs)
      else if at_dollar (c # cs) then ([], c # cs)
      else (case segment_at cs of (m, r) \<Rightarrow> (c # m, r)))"

lemma segment_at_length: "segment_at s = (m, r) \<Longrightarrow> length r \<le> length s"
  by (induction s arbitrary: m r) (auto split: if_splits prod.splits)

lemma segment_at_nonempty: "segment_at s = (m, r) \<Longrightarrow> m \<noteq> [] \<Longrightarrow> length r < length s"
  by (induction s arbitrary: m r) (auto split: if_splits prod.splits dest: segment_at_length)

function findall_segments :: "bool \<Rightarrow> string \<Rightarrow> string list" where
  \<comment> \<open>\<^verbatim>\<open>re.findall(r'[^.!?,;]*?(?:[.!?,;]|$)', text)\<close>. The flag is set after an empty match:
      the next match at the same place must not be empty.\<close>
  "findall_segments must_advance s =
     (if must_advance
      then (case s of
              [] \<Rightarrow> []
            | c # cs \<Rightarrow>
                if is_punct c then [c] # findall_segments False cs
                else (case segment_at cs of (m, r) \<Rightarrow> (c # m) # findall_segments False r))
      else (case segment_at s of (m, r) \<Rightarrow> m # findall_segments (m = []) r))"
  by pat_completeness auto
termination
proof (relation "measure (\<lambda>(adv, s). 2 * length s + (if adv then 0 else 1))", goal_cases)
  case 1
  then show ?case by simp
next
  case 2
  then show ?case by simp
next
  case 3
  then show ?case
    by (auto dest: segment_at_length [OF sym])
next
  case 4
  then show ?case
    by (auto dest: segment_at_length [OF sym] segment_at_nonempty [OF sym]
        simp add: less_Suc_eq_le)
qed

declare findall_segments.simps [simp del]

definition str_strip :: "string \<Rightarrow> string" where
  \<comment> \<open>\<^verbatim>\<open>s.strip()\<close>\<close>
  "str_strip s = rev (dropWhile isspace (rev (dropWhile isspace s)))"

function replace_from :: "string \<Rightarrow> string \<Rightarrow> string \<Rightarrow> string" where
  "replace_from old new [] = []"
| "replace_from old new (c # cs) =
     (if old \<noteq> [] \<and> take (length old) (c # cs) = old
      then new @ replace_from old new (drop (length old) (c # cs))
      else c # replace_from old new cs)"
  by pat_completeness auto
termination
  by (relation "measure (\<lambda>(old, new, s). length s)") (auto simp add: neq_Nil_conv)

definition str_replace :: "string \<Rightarrow> string \<Rightarrow> string \<Rightarrow> string" where
  \<comment> \<open>\<^verbatim>\<open>s.replace(old, new)\<close>: every occurrence, from the left, not overlapping.\<close>
  "str_replace old new s =
     (if old = [] then new @ concat (map (\<lambda>c. c # new) s) else replace_from old new s)"

text \<open>
  The integer constant compared with \<^verbatim>\<open>len(s.split())\<close> and \<^verbatim>\<open>len(segment.strip())\<close> is
  10 or 13 (the source file does not tell the two bytes apart); it is the parameter
  \<open>min_len\<close>. \<^verbatim>\<open>random.random()\<close> is the parameter \<open>random\<close>, indexed by the number of
  earlier calls.
\<close>

fun segment_loop :: "nat \<Rightarrow> (nat \<Rightarrow> real) \<Rightarrow> nat \<Rightarrow> string list \<Rightarrow> string \<Rightarrow> string" where
  \<comment> \<open>\<^verbatim>\<open>for segment in clean_segments[:3]\<close>\<close>
  "segment_loop min_len random n [] modified = modified"
| "segment_loop min_len random n (segment # segs) modified =
     (if length (str_strip segment) < min_len then segment_loop min_len random n segs modified
      else
        let words = str_split segment
        in if length words \<ge> 6
           then
             let midpoint = length words div 2;
                 insertion = (if random n > 0.5 then '' um '' else '' uh '');
                 modified_segment =
                   join '' '' (take midpoint words) @ insertion @ join '' '' (drop midpoint words)
             in segment_loop min_len random (Suc n) segs
                  (str_replace segment modified_segment modified)
           else segment_loop min_len random n segs modified)"

definition ensure_filler_words_try ::
    "nat \<Rightarrow> (string \<Rightarrow> error option) \<Rightarrow> (nat \<Rightarrow> real) \<Rightarrow> string \<Rightarrow> string \<Rightarrow> error + string" where
  \<comment> \<open>The body of the \<^verbatim>\<open>try\<close> statement of \<^verbatim>\<open>_ensure_filler_words\<close>. \<open>from_file\<close> is
      \<^verbatim>\<open>AudioSegment.from_file\<close>: the exception it raises on a path, if any.\<close>
  "ensure_filler_words_try min_len from_file random transcript audio_path =
     (case from_file audio_path of
        Some e \<Rightarrow> Inl e
      | None \<Rightarrow>
          let filler_count = count_fillers False (str_lower transcript);
              word_count = length (str_split transcript)
          in if word_count > 50 \<and> real filler_count < real word_count / 50
             then
               let clean_segments = findall_segments False transcript;
                   clean_segments =
                     filter (\<lambda>s. length (str_split s) > min_len \<and>
                                 count_fillers False (str_lower s) = 0) clean_segments
               in if clean_segments \<noteq> []
                  then Inr (segment_loop min_len random 0 (take 3 clean_segments) transcript)
                  else Inr transcript
             else Inr transcript)"

definition ensure_filler_words ::
    "nat \<Rightarrow> (string \<Rightarrow> error option) \<Rightarrow> (nat \<Rightarrow> real) \<Rightarrow> string \<Rightarrow> string \<Rightarrow> string" where
  \<comment> \<open>\<^verbatim>\<open>except Exception as e: logger.warning(...); return transcript\<close>\<close>
  "ensure_filler_words min_len from_file random transcript audio_path =
     (case ensure_filler_words_try min_len from_file random transcript audio_path of
        Inl e \<Rightarrow> transcript
      | Inr modified \<Rightarrow> modified)"

section \<open>The orchestrator\<close>

text \<open>
  What the recognition engine returns: \<^verbatim>\<open>result['text']\<close>, and \<^verbatim>\<open>result['segments']\<close> when
  that key is present; a segment has the key \<^verbatim>\<open>'words'\<close> or not; a word has the keys
  \<^verbatim>\<open>'word'\<close>, \<^verbatim>\<open>'start'\<close> and \<^verbatim>\<open>'end'\<close>.
\<close>

datatype word_info = Word_info string real real

datatype segment = Segment "word_info list option"

record whisper_result =
  result_text :: string
  segments :: "segment list option"

text \<open>
  The outcome of the \<^verbatim>\<open>ffmpeg\<close> run of \<^verbatim>\<open>_extract_audio\<close>: exit status 0 with the output
  file written, or \<^verbatim>\<open>CalledProcessError\<close> with its message, after which the output file
  exists or not.
\<close>

datatype extraction = Extracted | Extraction_failed bool string

text \<open>
  The world outside the service: the paths that exist, the loaded model
  (\<^verbatim>\<open>self.model\<close>, \<^verbatim>\<open>None\<close> when loading failed) with its \<^verbatim>\<open>transcribe\<close> method, the name
  \<^verbatim>\<open>tempfile.mktemp\<close> returns, the outcomes of \<^verbatim>\<open>ffmpeg\<close>, \<^verbatim>\<open>AudioSegment.from_file\<close>,
  \<^verbatim>\<open>random.random\<close>, \<^verbatim>\<open>ffprobe\<close> (the duration it reports, if the run and the parsing
  succeed) and \<^verbatim>\<open>os.remove\<close> (whether it succeeds on a path), and the parameters of the
  functions above.
\<close>

record env =
  files :: "string set"
  model :: "(string \<Rightarrow> error + whisper_result) option"
  mktemp :: string
  ffmpeg :: extraction
  from_file :: "string \<Rightarrow> error option"
  random :: "nat \<Rightarrow> real"
  ffprobe :: "string \<Rightarrow> real option"
  remove_ok :: "string \<Rightarrow> bool"
  parse_template :: template_parser
  rates :: fallback_rates
  min_len :: nat

datatype val =
  Null | Bool bool | Str string | Float real | Integer int | Timings "word_timing list"

type_synonym result = "string \<rightharpoonup> val"

definition extract_audio :: "env \<Rightarrow> string \<Rightarrow> (error + string) \<times> string set" where
  \<comment> \<open>Returns the temporary path or the exception raised, and the paths that exist
      afterwards.\<close>
  "extract_audio e video_path =
     (let temp_audio_path = mktemp e
      in case ffmpeg e of
           Extracted \<Rightarrow> (Inr temp_audio_path, insert temp_audio_path (files e))
         | Extraction_failed left msg \<Rightarrow>
             (Inl (Error (''Failed to extract audio: '' @ msg)),
              if left then insert temp_audio_path (files e) else files e))"

fun segment_timestamps :: "segment \<Rightarrow> word_timing list" where
  "segment_timestamps (Segment None) = []"
| "segment_timestamps (Segment (Some ws)) =
     map (\<lambda>word_info. case word_info of
            Word_info w s t \<Rightarrow> \<lparr>word = w, start_time = s, end_time = t\<rparr>) ws"

definition opt :: "('a \<Rightarrow> val) \<Rightarrow> 'a option \<Rightarrow> val" where
  "opt f x = (case x of None \<Rightarrow> Null | Some v \<Rightarrow> f v)"

definition transcribe_try ::
    "env \<Rightarrow> string \<Rightarrow> string option \<Rightarrow> (error + result) \<times> string list \<times> string set" where
  \<comment> \<open>The body of the \<^verbatim>\<open>try\<close> statement of \<^verbatim>\<open>transcribe\<close>: the dictionary returned or the
      exception raised, the list \<^verbatim>\<open>temp_files\<close>, and the paths that exist afterwards.\<close>
  "transcribe_try e video_path audio_path =
     (if video_path \<notin> files e
      then (Inr [''success'' \<mapsto> Bool False, ''error'' \<mapsto> Str ''Video file not found''],
            [], files e)
      else case model e of
        None \<Rightarrow>
          (Inr [''success'' \<mapsto> Bool False,
                ''error'' \<mapsto> Str ''Transcription service not initialized correctly''],
           [], files e)
      | Some whisper \<Rightarrow>
          (case (case audio_path of
                   Some a \<Rightarrow>
                     if a \<noteq> [] \<and> a \<in> files e then (Inr a, [], files e)
                     else (case extract_audio e video_path of
                             (Inl x, fs) \<Rightarrow> (Inl x, [], fs)
                           | (Inr p, fs) \<Rightarrow> (Inr p, [p], fs))
                 | None \<Rightarrow>
                     (case extract_audio e video_path of
                        (Inl x, fs) \<Rightarrow> (Inl x, [], fs)
                      | (Inr p, fs) \<Rightarrow> (Inr p, [p], fs))) of
             (Inl x, temp_files, fs) \<Rightarrow> (Inl x, temp_files, fs)
           | (Inr source_audio_path, temp_files, fs) \<Rightarrow>
               (case whisper source_audio_path of
                  Inl x \<Rightarrow> (Inl x, temp_files, fs)
                | Inr res \<Rightarrow>
                    let transcript = str_strip (result_text res);
                        timestamps =
                          (case segments res of
                             None \<Rightarrow> []
                           | Some segs \<Rightarrow> concat (map segment_timestamps segs))
                    in case clean_repetitions (parse_template e) transcript of
                         Inl x \<Rightarrow> (Inl x, temp_files, fs)
                       | Inr cleaned \<Rightarrow>
                           let transcript =
                                 ensure_filler_words (min_len e) (from_file e) (random e)
                                   cleaned source_audio_path;
                               duration = ffprobe e source_audio_path
                           in (Inr [''success'' \<mapsto> Bool True,
                                    ''transcript'' \<mapsto> Str transcript,
                                    ''timestamps'' \<mapsto> Timings timestamps,
                                    ''duration'' \<mapsto> opt Float duration,
                                    ''speaking_rate'' \<mapsto>
                                      (if timestamps \<noteq> []
                                       then opt Integer (calculate_speaking_rate (rates e)
                                                       transcript timestamps)
                                       else Null)],
                               temp_files, fs))))"

fun cleanup :: "(string \<Rightarrow> bool) \<Rightarrow> string list \<Rightarrow> string set \<Rightarrow> string set" where
  \<comment> \<open>The \<^verbatim>\<open>finally\<close> block: \<^verbatim>\<open>os.remove\<close> on every listed path that exists; a failing
      \<^verbatim>\<open>os.remove\<close> is ignored.\<close>
  "cleanup rm [] fs = fs"
| "cleanup rm (file_path # temp_files) fs =
     (if file_path \<in> fs
      then (if rm file_path then cleanup rm temp_files (fs - {file_path})
            else cleanup rm temp_files fs)
      else cleanup rm temp_files fs)"

definition transcribe :: "env \<Rightarrow> string \<Rightarrow> string option \<Rightarrow> result \<times> string set" where
  \<comment> \<open>\<^verbatim>\<open>transcribe(video_path, audio_path=None)\<close>: the dictionary returned and the paths that
      exist afterwards.\<close>
  "transcribe e video_path audio_path =
     (case transcribe_try e video_path audio_path of
        (Inr r, temp_files, fs) \<Rightarrow> (r, cleanup (remove_ok e) temp_files fs)
      | (Inl (Error msg), temp_files, fs) \<Rightarrow>
          ([''success'' \<mapsto> Bool False, ''error'' \<mapsto> Str msg],
           cleanup (remove_ok e) temp_files fs))"

text \<open>
  A transcript for the closed example of the densifier.
\<close>

definition crowded :: string where
  "crowded = ''um x a b c d e f g h i j k l m n. a b c d e f g h i j k l m n. pa pb pc pd pe, qa qb qc qd qe, ra rb rc rd re, sa sb sc sd se, ta tb tc td te.''"

text \<open>
  An environment for the closed examples: the video exists, the engine returns "hello"
  without segments, \<^verbatim>\<open>ffmpeg\<close> writes the temporary file, and \<^verbatim>\<open>os.remove\<close> fails.
\<close>

definition env0 :: env where
  "env0 = \<lparr>files = {''v.mp4''},
     model = Some (\<lambda>p. Inr \<lparr>result_text = ''hello'', segments = None\<rparr>),
     mktemp = ''t.wav'', ffmpeg = Extracted, from_file = (\<lambda>p. None), random = (\<lambda>n. 0),
     ffprobe = (\<lambda>p. None), remove_ok = (\<lambda>p. False), parse_template = no_templates,
     rates = rates_from_spec, min_len = 10\<rparr>"

section \<open>Properties of the speaking rate\<close>




text \<open>
  C4 (as stated). The claim lets the fallback return null below 10 words; the code returns
  null for a transcript without any word only, and 120 for one word.
\<close>

theorem fallback_coverage_counterexample:
  "word_count ''hello'' < 10
   \<and> calculate_fallback_speaking_rate rates_from_spec ''hello'' = Some 120
   \<and> calculate_speaking_rate rates_from_spec ''hello'' [] = Some 120"
  by (simp add: calculate_speaking_rate_def calculate_fallback_speaking_rate_def
      word_count_def str_split_def isspace_def)

text \<open>
  C4 (amended). With fewer than two timestamps the estimator returns the fallback value,
  which is decided by the word count alone: null for a transcript without words, 120 below
  20 words, one fixed value from 20 to 99 words and another from 100 words on. Hence the
  result is non-null for every transcript with at least one word.
\<close>

theorem fallback_coverage:
  "length ts < 2 \<longrightarrow>
     calculate_speaking_rate k t ts =
       (if word_count t = 0 then None
        else if word_count t < 20 then Some 120
        else if word_count t < 100 then Some (rate_below_100 k)
        else Some (rate_otherwise k))
     \<and> (0 < word_count t \<longrightarrow> calculate_speaking_rate k t ts \<noteq> None)"
proof
  assume "length ts < 2"
  then have "calculate_speaking_rate k t ts = calculate_fallback_speaking_rate k t"
    by (simp add: calculate_speaking_rate_def)
  then show "calculate_speaking_rate k t ts =
       (if word_count t = 0 then None
        else if word_count t < 20 then Some 120
        else if word_count t < 100 then Some (rate_below_100 k)
        else Some (rate_otherwise k))
     \<and> (0 < word_count t \<longrightarrow> calculate_speaking_rate k t ts \<noteq> None)"
    by (simp add: calculate_fallback_speaking_rate_def Let_def)
qed

theorem fallback_coverage_witness:
  "length ([] :: word_timing list) < 2
   \<and> 0 < word_count ''a b c d e f g h i j''
   \<and> calculate_speaking_rate rates_from_spec ''a b c d e f g h i j'' [] = Some 120
   \<and> calculate_speaking_rate rates_from_spec ''a b c d e f g h i j'' [] \<noteq> None"
  using fallback_coverage [of "[]" rates_from_spec "''a b c d e f g h i j''"]
  by (simp add: word_count_def str_split_def isspace_def)




section \<open>Properties of the repetition cleaner\<close>

subsection \<open>Characters, words and the single-word pass\<close>


lemma of_char_lower:
  "(of_char (lower_char c) :: nat) =
     (if (65 \<le> (of_char c :: nat) \<and> (of_char c :: nat) \<le> 90) \<or> (192 \<le> (of_char c :: nat) \<and> (of_char c :: nat) \<le> 214) \<or> (216 \<le> (of_char c :: nat) \<and> (of_char c :: nat) \<le> 222) then of_char c + 32 else of_char c)"
  by (simp add: lower_char_def Let_def)

lemma isword_lower: "isword (lower_char c) = isword c"
proof (cases "(65 \<le> (of_char c :: nat) \<and> (of_char c :: nat) \<le> 90) \<or> (192 \<le> (of_char c :: nat) \<and> (of_char c :: nat) \<le> 214) \<or> (216 \<le> (of_char c :: nat) \<and> (of_char c :: nat) \<le> 222)")
  case True
  then have "(of_char (lower_char c) :: nat) = of_char c + 32"
    by (simp add: of_char_lower)
  with True show ?thesis
    unfolding isword_def Let_def by presburger
next
  case False
  then have "lower_char c = c"
    unfolding lower_char_def Let_def by (simp only: if_False)
  then show ?thesis by simp
qed

lemma lower_word: "lower_char c = lower_char d \<Longrightarrow> isword c = isword d"
  by (metis isword_lower)

lemma word_not_space: "isword c \<Longrightarrow> \<not> isspace c"
  by (auto simp add: isword_def isspace_def Let_def)

lemma ci_prefix_same:
  "map lower_char v = map lower_char w \<Longrightarrow> ci_prefix w (v @ x) = Some x"
proof (induction w arbitrary: v)
  case Nil
  then show ?case by simp
next
  case (Cons a w)
  then obtain b v' where "v = b # v'"
    by (cases v) auto
  with Cons show ?case by simp
qed

lemma ci_prefix_SomeD:
  "ci_prefix w y = Some r \<Longrightarrow> \<exists>v. y = v @ r \<and> map lower_char v = map lower_char w"
proof (induction w y rule: ci_prefix.induct)
  case (1 s)
  then show ?case by simp
next
  case (2 p ps)
  then show ?case by simp
next
  case (3 p ps c cs)
  then have eq: "lower_char p = lower_char c" and "ci_prefix ps cs = Some r"
    by (auto split: if_splits)
  with 3 obtain v where "cs = v @ r" "map lower_char v = map lower_char ps"
    by auto
  with eq have "c # cs = (c # v) @ r \<and> map lower_char (c # v) = map lower_char (p # ps)"
    by simp
  then show ?case by blast
qed

lemma lower_all_word:
  "map lower_char v = map lower_char w \<Longrightarrow> \<forall>c\<in>set w. isword c \<Longrightarrow> \<forall>c\<in>set v. isword c"
proof (induction w arbitrary: v)
  case Nil
  then show ?case by simp
next
  case (Cons a w)
  then obtain b v' where v: "v = b # v'"
    by (cases v) auto
  with Cons.prems have "lower_char b = lower_char a" "map lower_char v' = map lower_char w"
    by auto
  with Cons v show ?case
    by (auto dest: lower_word)
qed

lemma at_word_end_dropWhile: "at_word_end (dropWhile isword y)"
  by (induction y) (auto simp add: at_word_end_def)

lemma takeWhile_word:
  "\<forall>c\<in>set w. isword c \<Longrightarrow> at_word_end x \<Longrightarrow> takeWhile isword (w @ x) = w"
  by (cases x) (auto simp add: at_word_end_def takeWhile_append2 takeWhile_tail)

lemma dropWhile_word:
  "\<forall>c\<in>set w. isword c \<Longrightarrow> at_word_end x \<Longrightarrow> dropWhile isword (w @ x) = x"
  by (cases x) (auto simp add: at_word_end_def dropWhile_append2 dropWhile_append3)

text \<open>The back-reference followed by a word boundary looks at the first word only.\<close>

lemma backref_token:
  assumes "w \<noteq> []" "\<forall>c\<in>set w. isword c"
  shows "(case ci_prefix w y of Some r \<Rightarrow> if at_word_end r then Some r else None | None \<Rightarrow> None)
       = (if map lower_char (takeWhile isword y) = map lower_char w
          then Some (dropWhile isword y) else None)"
proof (cases "map lower_char (takeWhile isword y) = map lower_char w")
  case True
  have "y = takeWhile isword y @ dropWhile isword y" by simp
  then have "ci_prefix w y = Some (dropWhile isword y)"
    using ci_prefix_same [OF True, of "dropWhile isword y"] by simp
  with True show ?thesis
    by (simp add: at_word_end_dropWhile)
next
  case False
  have "\<not> (\<exists>r. ci_prefix w y = Some r \<and> at_word_end r)"
  proof
    assume "\<exists>r. ci_prefix w y = Some r \<and> at_word_end r"
    then obtain r where r: "ci_prefix w y = Some r" "at_word_end r" by blast
    then obtain v where v: "y = v @ r" "map lower_char v = map lower_char w"
      by (auto dest: ci_prefix_SomeD)
    with assms(2) have "\<forall>c\<in>set v. isword c"
      by (rule_tac lower_all_word)
    then have "takeWhile isword (v @ r) = v"
      using r(2) by (rule takeWhile_word)
    with v False show False by simp
  qed
  with False show ?thesis
    by (auto split: option.splits)
qed

lemma ci_prefix_space:
  assumes "w \<noteq> []" "\<forall>c\<in>set w. isword c" "isspace c"
  shows "ci_prefix w (c # cs) = None"
proof -
  obtain a w' where w: "w = a # w'" using assms(1) by (cases w) auto
  with assms(2) have "isword a" by simp
  moreover have "\<not> isword c" using assms(3) word_not_space by blast
  ultimately have "lower_char a \<noteq> lower_char c"
    using lower_word by blast
  with w show ?thesis by simp
qed

lemma repetition_token:
  assumes "w \<noteq> []" "\<forall>c\<in>set w. isword c"
  shows "repetition w q =
     (if takeWhile isspace q \<noteq> [] \<and>
         map lower_char (takeWhile isword (dropWhile isspace q)) = map lower_char w
      then Some (dropWhile isword (dropWhile isspace q)) else None)"
proof (induction q)
  case Nil
  then show ?case by simp
next
  case (Cons c cs)
  show ?case
  proof (cases "isspace c")
    case False
    then show ?thesis by simp
  next
    case True
    show ?thesis
    proof (cases cs)
      case Nil
      moreover have "ci_prefix w [] = None"
        using assms(1) by (cases w) auto
      ultimately show ?thesis using True assms(1) by simp
    next
      case (Cons d ds)
      show ?thesis
      proof (cases "isspace d")
        case sp: True
        then have tw: "takeWhile isspace cs \<noteq> []" using Cons by simp
        show ?thesis
        proof (cases "map lower_char (takeWhile isword (dropWhile isspace cs)) = map lower_char w")
          case True
          with tw Cons.IH \<open>isspace c\<close> show ?thesis by simp
        next
          case False
          with Cons.IH have "repetition w cs = None" by simp
          moreover have "ci_prefix w cs = None"
            using Cons sp assms by (simp add: ci_prefix_space)
          ultimately show ?thesis using False \<open>isspace c\<close> by simp
        qed
      next
        case nsp: False
        then have tw: "takeWhile isspace cs = []" "dropWhile isspace cs = cs"
          using Cons by simp_all
        with Cons.IH have "repetition w cs = None" by simp
        then have "repetition w (c # cs) =
          (case ci_prefix w cs of Some r \<Rightarrow> if at_word_end r then Some r else None | None \<Rightarrow> None)"
          using \<open>isspace c\<close> by simp
        also have "\<dots> = (if map lower_char (takeWhile isword cs) = map lower_char w
          then Some (dropWhile isword cs) else None)"
          using assms by (rule backref_token)
        finally show ?thesis using \<open>isspace c\<close> tw by simp
      qed
    qed
  qed
qed


lemma sub_words_word_prefix:
  "\<forall>c\<in>set u. isword c \<Longrightarrow> sub_words True (u @ x) = u @ sub_words True x"
  by (induction u) auto

lemma sub_words_at_word_end: "at_word_end x \<Longrightarrow> sub_words True x = sub_words False x"
  by (cases x) (auto simp add: at_word_end_def)

lemma sub_words_no_word:
  "\<forall>c\<in>set p. \<not> isword c \<Longrightarrow> sub_words False (p @ x) = p @ sub_words False x"
  by (induction p) auto

lemma sub_words_hd: "\<exists>ys. sub_words b (c # cs) = c # ys"
  by (auto split: option.splits)

lemma at_word_end_sub_words:
  assumes "at_word_end x"
  shows "at_word_end (sub_words b x)"
proof (cases x)
  case Nil
  then show ?thesis by (simp add: at_word_end_def)
next
  case (Cons c cs)
  obtain ys where "sub_words b (c # cs) = c # ys"
    using sub_words_hd by blast
  with Cons assms show ?thesis
    by (simp add: at_word_end_def del: sub_words.simps)
qed

lemma repetition_at_word_end: "repetition w s = Some r \<Longrightarrow> at_word_end r"
  by (induction w s rule: repetition.induct) (auto split: if_splits option.splits)

lemma repeats_at_word_end: "at_word_end s \<Longrightarrow> at_word_end (repeats w s)"
proof (induction w s rule: repeats.induct)
  case (1 w s)
  show ?case
  proof (cases "repetition w s")
    case None
    with 1 show ?thesis by (simp add: repeats.simps)
  next
    case (Some r)
    then have "at_word_end r" by (rule repetition_at_word_end)
    with 1 Some show ?thesis by (simp add: repeats.simps)
  qed
qed

lemma repetition_repeats: "repetition w (repeats w s) = None"
proof (induction w s rule: repeats.induct)
  case (1 w s)
  then show ?case
    by (cases "repetition w s") (simp_all add: repeats.simps)
qed

text \<open>The pass at the start of a word: the word stays, its repetitions go.\<close>

lemma sub_words_token:
  assumes "w \<noteq> []" "\<forall>c\<in>set w. isword c" "at_word_end rest"
  shows "sub_words False (w @ rest) = w @ sub_words False (repeats w rest)"
proof -
  obtain c w' where w: "w = c # w'" using assms(1) by (cases w) auto
  have c: "isword c" and w': "\<forall>c\<in>set w'. isword c" using assms(2) w by simp_all
  have tw: "takeWhile isword (c # w' @ rest) = w"
    using takeWhile_word [OF assms(2,3)] w by simp
  have dw: "dropWhile isword (c # w' @ rest) = rest"
    using dropWhile_word [OF assms(2,3)] w by simp
  have "sub_words False (c # w' @ rest) =
     (case repetition (takeWhile isword (c # w' @ rest)) (dropWhile isword (c # w' @ rest)) of
        None \<Rightarrow> c # sub_words True (w' @ rest)
      | Some r \<Rightarrow> takeWhile isword (c # w' @ rest)
            @ sub_words True (repeats (takeWhile isword (c # w' @ rest)) r))"
    using c by (simp only: sub_words.simps simp_thms if_True)
  then have unfold: "sub_words False (c # w' @ rest) =
     (case repetition w rest of
        None \<Rightarrow> c # sub_words True (w' @ rest)
      | Some r \<Rightarrow> w @ sub_words True (repeats w r))"
    unfolding tw dw .
  show ?thesis
  proof (cases "repetition w rest")
    case None
    then have "repeats w rest = rest" by (simp add: repeats.simps)
    with None unfold w' assms(3) show ?thesis
      by (simp add: w sub_words_word_prefix sub_words_at_word_end)
  next
    case (Some r)
    then have "repeats w rest = repeats w r" by (simp add: repeats.simps)
    moreover have "at_word_end (repeats w r)"
      using Some by (intro repeats_at_word_end) (rule repetition_at_word_end)
    ultimately show ?thesis using Some unfold
      by (simp add: w sub_words_at_word_end)
  qed
qed

lemma takeWhile_isword_sub_words:
  "takeWhile isword (sub_words False y) = takeWhile isword y"
proof (cases "y = [] \<or> \<not> isword (hd y)")
  case True
  then show ?thesis
    by (cases y) auto
next
  case False
  define w where "w = takeWhile isword y"
  define rest where "rest = dropWhile isword y"
  have y: "y = w @ rest" by (simp add: w_def rest_def)
  have w: "w \<noteq> []" "\<forall>c\<in>set w. isword c"
    using False by (cases y; auto simp add: w_def dest: set_takeWhileD)+
  have rest: "at_word_end rest"
    by (simp add: rest_def at_word_end_dropWhile)
  have "sub_words False y = w @ sub_words False (repeats w rest)"
    unfolding y using w rest by (rule sub_words_token)
  moreover have "at_word_end (sub_words False (repeats w rest))"
    using rest by (intro at_word_end_sub_words repeats_at_word_end)
  then have "takeWhile isword (w @ sub_words False (repeats w rest)) = w"
    using w(2) by (intro takeWhile_word)
  ultimately show ?thesis
    by (simp only: w_def)
qed

lemma spaces_sub_words:
  "takeWhile isspace (sub_words False z) = takeWhile isspace z \<and>
   dropWhile isspace (sub_words False z) = sub_words False (dropWhile isspace z)"
proof -
  define sp where "sp = takeWhile isspace z"
  define y where "y = dropWhile isspace z"
  have z: "z = sp @ y" by (simp add: sp_def y_def)
  have sp: "\<forall>c\<in>set sp. isspace c"
    by (auto simp add: sp_def dest: set_takeWhileD)
  then have "\<forall>c\<in>set sp. \<not> isword c"
    using word_not_space by blast
  then have out: "sub_words False z = sp @ sub_words False y"
    unfolding z by (rule sub_words_no_word)
  have hd: "sub_words False y = [] \<or> \<not> isspace (hd (sub_words False y))"
  proof (cases y)
    case Nil
    then show ?thesis by simp
  next
    case (Cons c cs)
    then have "\<not> isspace c"
      using y_def by (metis dropWhile_eq_Cons_conv)
    moreover obtain ys where "sub_words False (c # cs) = c # ys"
      using sub_words_hd by blast
    ultimately show ?thesis using Cons by simp
  qed
  have "takeWhile isspace (sp @ sub_words False y) = sp"
    using sp hd by (cases "sub_words False y") (simp_all add: takeWhile_tail)
  moreover have "dropWhile isspace (sp @ sub_words False y) = sub_words False y"
    using sp hd by (cases "sub_words False y") (simp_all add: dropWhile_append3)
  ultimately show ?thesis
    using out by (simp add: sp_def y_def)
qed

lemma repetition_sub_words:
  assumes "w \<noteq> []" "\<forall>c\<in>set w. isword c" "repetition w z = None"
  shows "repetition w (sub_words False z) = None"
  using assms(3)
  unfolding repetition_token [OF assms(1,2)]
  by (simp add: spaces_sub_words takeWhile_isword_sub_words split: if_splits)

lemma sub_words_idempotent: "sub_words False (sub_words False x) = sub_words False x"
proof (induction x rule: length_induct)
  case (1 x)
  show ?case
  proof (cases x)
    case Nil
    then show ?thesis by simp
  next
    case (Cons c cs)
    show ?thesis
    proof (cases "isword c")
      case False
      moreover have "sub_words False (sub_words False cs) = sub_words False cs"
        using 1 Cons by simp
      ultimately show ?thesis using Cons by simp
    next
      case True
      define w where "w = takeWhile isword x"
      define rest where "rest = dropWhile isword x"
      define z where "z = repeats w rest"
      have x: "x = w @ rest" by (simp add: w_def rest_def)
      have w: "w \<noteq> []" "\<forall>c\<in>set w. isword c"
        using True Cons by (auto simp add: w_def dest: set_takeWhileD)
      have rest: "at_word_end rest"
        by (simp add: rest_def at_word_end_dropWhile)
      have out: "sub_words False x = w @ sub_words False z"
        unfolding x z_def using w rest by (rule sub_words_token)
      have z: "at_word_end z" "repetition w z = None"
        using rest by (simp_all add: z_def repeats_at_word_end repetition_repeats)
      have "repetition w (sub_words False z) = None"
        using w z(2) by (rule repetition_sub_words)
      then have fp: "repeats w (sub_words False z) = sub_words False z"
        by (simp add: repeats.simps)
      have "length z \<le> length rest"
        by (simp add: z_def repeats_length)
      moreover have "length x = length w + length rest"
        using x by (metis length_append)
      then have "length rest < length x"
        using w(1) by simp
      ultimately have ih: "sub_words False (sub_words False z) = sub_words False z"
        using 1 by simp
      have "sub_words False (w @ sub_words False z)
          = w @ sub_words False (repeats w (sub_words False z))"
        using w z(1) by (intro sub_words_token at_word_end_sub_words)
      with fp ih out show ?thesis by simp
    qed
  qed
qed


lemma window_loop_id:
  "\<forall>i\<in>set is. str_lower (join '' '' (take n (drop i ws)))
       \<noteq> str_lower (join '' '' (take n (drop (i + n) ws))) \<Longrightarrow>
   window_loop pt ws n is c = Inr c"
  by (induction "is") (simp_all add: Let_def)

lemma phrase_loop_id:
  "\<forall>n\<in>set ns. \<not> length ws < n * 2 \<longrightarrow>
      (\<forall>i\<in>set [0 ..< length ws - n * 2 + 1]. str_lower (join '' '' (take n (drop i ws)))
       \<noteq> str_lower (join '' '' (take n (drop (i + n) ws)))) \<Longrightarrow>
   phrase_loop pt ws ns c = Inr c"
proof (induction ns)
  case Nil
  then show ?case by simp
next
  case (Cons n ns)
  show ?case
  proof (cases "length ws < n * 2")
    case True
    with Cons show ?thesis by simp
  next
    case False
    with Cons.prems have "window_loop pt ws n [0 ..< length ws - n * 2 + 1] c = Inr c"
      by (intro window_loop_id) simp
    with False Cons show ?thesis by simp
  qed
qed

lemma blocked_suffix:
  assumes "blocked prev (m @ r) w" "m \<noteq> []"
  shows "blocked True r w"
  unfolding blocked_def
proof (intro allI impI)
  fix q0 v ws
  assume a: "r = q0 @ v @ ws \<and> v \<noteq> [] \<and> (\<forall>c\<in>set v. isword c) \<and>
        ws \<noteq> [] \<and> (\<forall>c\<in>set ws. isspace c) \<and> (q0 = [] \<longrightarrow> \<not> True) \<and>
        (q0 \<noteq> [] \<longrightarrow> \<not> isword (last q0))"
  then have "q0 \<noteq> []" by simp
  with a assms(2) have "m @ r = (m @ q0) @ v @ ws" "m @ q0 \<noteq> []" "\<not> isword (last (m @ q0))"
    by simp_all
  with a show "map lower_char v \<noteq> map lower_char w"
    using assms(1) [unfolded blocked_def, rule_format, of "m @ q0" v ws] by simp
qed

lemma blocked_tl:
  assumes "blocked prev (c # cs) w"
  shows "blocked (isword c) cs w"
  unfolding blocked_def
proof (intro allI impI)
  fix q0 v ws
  assume a: "cs = q0 @ v @ ws \<and> v \<noteq> [] \<and> (\<forall>c\<in>set v. isword c) \<and>
        ws \<noteq> [] \<and> (\<forall>c\<in>set ws. isspace c) \<and> (q0 = [] \<longrightarrow> \<not> isword c) \<and>
        (q0 \<noteq> [] \<longrightarrow> \<not> isword (last q0))"
  then have "c # cs = (c # q0) @ v @ ws" "c # q0 \<noteq> []" "\<not> isword (last (c # q0))"
    by auto
  with a show "map lower_char v \<noteq> map lower_char w"
    using assms [unfolded blocked_def, rule_format, of "c # q0" v ws] by simp
qed

lemma blocked_False:
  assumes "blocked True z w" "at_word_end z"
  shows "blocked False z w"
  unfolding blocked_def
proof (intro allI impI)
  fix q0 v ws
  assume a: "z = q0 @ v @ ws \<and> v \<noteq> [] \<and> (\<forall>c\<in>set v. isword c) \<and>
        ws \<noteq> [] \<and> (\<forall>c\<in>set ws. isspace c) \<and> (q0 = [] \<longrightarrow> \<not> False) \<and>
        (q0 \<noteq> [] \<longrightarrow> \<not> isword (last q0))"
  have "q0 \<noteq> []"
  proof
    assume "q0 = []"
    with a obtain c v' where "z = c # v' @ ws" "isword c"
      by (cases v) auto
    with assms(2) show False by (simp add: at_word_end_def)
  qed
  with a show "map lower_char v \<noteq> map lower_char w"
    using assms(1) [unfolded blocked_def, rule_format, of q0 v ws] by simp
qed

lemma repetition_append:
  assumes w1: "w1 \<noteq> []" "\<forall>c\<in>set w1. isword c"
    and w: "w \<noteq> []" "\<forall>c\<in>set w. isword c" "at_word_end y"
    and r: "r \<noteq> []" "\<not> isword (last r)"
    and b: "(\<forall>c\<in>set r. isspace c) \<longrightarrow> map lower_char w1 \<noteq> map lower_char w"
  shows "repetition w1 (r @ w @ y) = map_option (\<lambda>r'. r' @ w @ y) (repetition w1 r)"
proof (cases "\<forall>c\<in>set r. isspace c")
  case True
  obtain a w' where a: "w = a # w'" using w(1) by (cases w) auto
  with w(2) have "\<not> isspace a" using word_not_space by simp
  with True a have tw: "takeWhile isspace (r @ w @ y) = r"
    and dw: "dropWhile isspace (r @ w @ y) = w @ y"
    by (simp_all add: takeWhile_tail dropWhile_append3)
  have "takeWhile isword (w @ y) = w"
    using w(2,3) by (rule takeWhile_word)
  with tw dw True b have "repetition w1 (r @ w @ y) = None"
    unfolding repetition_token [OF w1] by (simp del: takeWhile_append dropWhile_append)
  moreover have dn: "dropWhile isspace r = []"
    using True by simp
  have "repetition w1 r = None"
    unfolding repetition_token [OF w1] dn using w1(1) by simp
  ultimately show ?thesis by simp
next
  case False
  define y0 where "y0 = dropWhile isspace r"
  have y0: "y0 \<noteq> []" using False by (simp add: y0_def)
  have ex: "\<exists>c\<in>set r. \<not> isspace c" using False by blast
  have tw: "takeWhile isspace (r @ w @ y) = takeWhile isspace r"
    using ex by (auto simp add: takeWhile_append1)
  have dw: "dropWhile isspace (r @ w @ y) = y0 @ w @ y"
    using ex by (auto simp add: dropWhile_append1 y0_def)
  have "r = takeWhile isspace r @ y0"
    by (simp add: y0_def)
  then have "last r = last y0"
    using y0 by (metis last_appendR)
  moreover have "last y0 \<in> set y0"
    using y0 by simp
  ultimately have "\<exists>c\<in>set y0. \<not> isword c"
    using r(2) by auto
  then have "takeWhile isword (y0 @ w @ y) = takeWhile isword y0"
    and "dropWhile isword (y0 @ w @ y) = dropWhile isword y0 @ w @ y"
    by (auto simp add: takeWhile_append1 dropWhile_append1)
  with tw dw show ?thesis
    unfolding repetition_token [OF w1] by (simp add: y0_def del: takeWhile_append dropWhile_append)
qed

lemma repetition_SomeD:
  assumes "w1 \<noteq> []" "\<forall>c\<in>set w1. isword c" "repetition w1 r = Some r'"
  shows "\<exists>sp v. r = sp @ v @ r' \<and> sp \<noteq> [] \<and> (\<forall>c\<in>set sp. isspace c) \<and> v \<noteq> [] \<and>
     (\<forall>c\<in>set v. isword c) \<and> map lower_char v = map lower_char w1"
proof -
  define sp where "sp = takeWhile isspace r"
  define v where "v = takeWhile isword (dropWhile isspace r)"
  from assms(3) have h: "sp \<noteq> []" "map lower_char v = map lower_char w1"
    "r' = dropWhile isword (dropWhile isspace r)"
    unfolding repetition_token [OF assms(1,2)] sp_def v_def by (auto split: if_splits)
  have "r = sp @ v @ r'"
    by (simp add: sp_def v_def h(3))
  moreover have "\<forall>c\<in>set sp. isspace c" "\<forall>c\<in>set v. isword c"
    by (auto simp add: sp_def v_def dest: set_takeWhileD)
  moreover have "v \<noteq> []" using h(2) assms(1) by auto
  ultimately show ?thesis using h(1,2) by blast
qed

lemma repeats_append:
  assumes w: "w \<noteq> []" "\<forall>c\<in>set w. isword c" "at_word_end y"
  shows "w1 \<noteq> [] \<Longrightarrow> \<forall>c\<in>set w1. isword c \<Longrightarrow> blocked True r w \<Longrightarrow> r \<noteq> [] \<Longrightarrow>
    \<not> isword (last r) \<Longrightarrow> ((\<forall>c\<in>set r. isspace c) \<longrightarrow> map lower_char w1 \<noteq> map lower_char w) \<Longrightarrow>
    repeats w1 (r @ w @ y) = repeats w1 r @ w @ y"
proof (induction w1 r rule: repeats.induct)
  case (1 w1 r)
  have app: "repetition w1 (r @ w @ y) = map_option (\<lambda>r'. r' @ w @ y) (repetition w1 r)"
    using "1.prems"(1,2) w "1.prems"(4,5,6) by (rule repetition_append)
  show ?case
  proof (cases "repetition w1 r")
    case None
    with app show ?thesis by (simp add: repeats.simps)
  next
    case (Some r')
    then obtain sp v where d: "r = sp @ v @ r'" "sp \<noteq> []" "\<forall>c\<in>set sp. isspace c" "v \<noteq> []"
      "\<forall>c\<in>set v. isword c" "map lower_char v = map lower_char w1"
      using repetition_SomeD [OF "1.prems"(1,2)] by blast
    have r': "r' \<noteq> []"
    proof
      assume "r' = []"
      with d have "last r = last v" by simp
      with d(4,5) "1.prems"(5) show False by simp
    qed
    then have last: "\<not> isword (last r')"
      using d(1) "1.prems"(5) by simp
    have bl: "blocked True r' w"
      using "1.prems"(3) d(1,2) blocked_suffix [of True "sp @ v" r' w] by simp
    have sp: "\<not> isword (last sp)"
      using d(2,3) word_not_space last_in_set by blast
    have "(\<forall>c\<in>set r'. isspace c) \<longrightarrow> map lower_char v \<noteq> map lower_char w"
      using "1.prems"(3) [unfolded blocked_def, rule_format, of sp v r'] d r' sp by simp
    then have ne: "(\<forall>c\<in>set r'. isspace c) \<longrightarrow> map lower_char w1 \<noteq> map lower_char w"
      using d(6) by simp
    have "repeats w1 (r' @ w @ y) = repeats w1 r' @ w @ y"
      using "1.IH" [OF Some "1.prems"(1,2) bl r' last ne] .
    with Some app show ?thesis by (simp add: repeats.simps)
  qed
qed

lemma repeats_suffix:
  "w1 \<noteq> [] \<Longrightarrow> \<forall>c\<in>set w1. isword c \<Longrightarrow>
   \<exists>m. r = m @ repeats w1 r \<and> (m = [] \<or> isword (last m))"
proof (induction w1 r rule: repeats.induct)
  case (1 w1 r)
  show ?case
  proof (cases "repetition w1 r")
    case None
    then show ?thesis by (simp add: repeats.simps)
  next
    case (Some r')
    then obtain sp v where d: "r = sp @ v @ r'" "v \<noteq> []" "\<forall>c\<in>set v. isword c"
      using repetition_SomeD [OF "1.prems"] by blast
    obtain m where m: "r' = m @ repeats w1 r'" "m = [] \<or> isword (last m)"
      using "1.IH" [OF Some "1.prems"] by blast
    have "r = (sp @ v @ m) @ repeats w1 r'"
      using d(1) m(1) by simp
    moreover have "isword (last (sp @ v @ m))"
      using d(2,3) m(2) by (cases "m = []") auto
    moreover have "repeats w1 r = repeats w1 r'"
      using Some by (simp add: repeats.simps)
    ultimately show ?thesis by metis
  qed
qed

lemma sub_words_append:
  assumes w: "w \<noteq> []" "\<forall>c\<in>set w. isword c" "at_word_end y"
  shows "blocked False q w \<Longrightarrow> q = [] \<or> \<not> isword (last q) \<Longrightarrow>
    sub_words False (q @ w @ y) = sub_words False q @ sub_words False (w @ y)"
proof (induction q rule: length_induct)
  case (1 q)
  show ?case
  proof (cases q)
    case Nil
    then show ?thesis by simp
  next
    case (Cons c cs)
    show ?thesis
    proof (cases "isword c")
      case False
      have "blocked False cs w"
        using "1.prems"(1) blocked_tl [of False c cs w] Cons False by simp
      moreover have "cs = [] \<or> \<not> isword (last cs)"
        using "1.prems"(2) Cons by (auto split: if_splits)
      moreover have "length cs < length q"
        using Cons by simp
      ultimately have "sub_words False (cs @ w @ y)
          = sub_words False cs @ sub_words False (w @ y)"
        using "1.IH" [rule_format, of cs] by blast
      with False Cons show ?thesis by simp
    next
      case True
      define w1 where "w1 = takeWhile isword q"
      define rest where "rest = dropWhile isword q"
      define z where "z = repeats w1 rest"
      have q: "q = w1 @ rest" by (simp add: w1_def rest_def)
      have w1: "w1 \<noteq> []" "\<forall>c\<in>set w1. isword c"
        using True Cons by (auto simp add: w1_def dest: set_takeWhileD)
      have are: "at_word_end rest"
        by (simp add: rest_def at_word_end_dropWhile)
      have lastq: "\<not> isword (last q)"
        using "1.prems"(2) Cons by simp
      have rest: "rest \<noteq> []"
      proof
        assume "rest = []"
        with q have "last q = last w1" by simp
        with w1 lastq show False by simp
      qed
      then have lastr: "\<not> isword (last rest)"
        using q lastq by (metis last_appendR)
      have br: "blocked True rest w"
        using "1.prems"(1) w1(1) blocked_suffix [of False w1 rest w] q by simp
      have ne: "(\<forall>c\<in>set rest. isspace c) \<longrightarrow> map lower_char w1 \<noteq> map lower_char w"
      proof
        assume "\<forall>c\<in>set rest. isspace c"
        then have "q = [] @ w1 @ rest \<and> w1 \<noteq> [] \<and> (\<forall>c\<in>set w1. isword c) \<and>
          rest \<noteq> [] \<and> (\<forall>c\<in>set rest. isspace c) \<and> (([]::string) = [] \<longrightarrow> \<not> False) \<and>
          (([]::string) \<noteq> [] \<longrightarrow> \<not> isword (last ([]::string)))"
          using q w1 rest by simp
        then show "map lower_char w1 \<noteq> map lower_char w"
          using "1.prems"(1) [unfolded blocked_def, rule_format, of "[]" w1 rest] by simp
      qed
      have ra: "repeats w1 (rest @ w @ y) = z @ w @ y"
        unfolding z_def using w w1 br rest lastr ne by (rule repeats_append)
      obtain m where m: "rest = m @ z" "m = [] \<or> isword (last m)"
        using repeats_suffix [OF w1, of rest] z_def by blast
      have z: "z \<noteq> []"
      proof
        assume "z = []"
        with m rest have "m \<noteq> []" "last rest = last m" by auto
        with m(2) lastr show False by simp
      qed
      then have lastz: "\<not> isword (last z)"
        using m(1) lastr by (metis last_appendR)
      have az: "at_word_end z"
        unfolding z_def using are by (rule repeats_at_word_end)
      have bz: "blocked False z w"
      proof (cases "m = []")
        case True
        with m(1) br az show ?thesis by (simp add: blocked_False)
      next
        case False
        with br m(1) have "blocked True z w"
          using blocked_suffix [of True m z w] by simp
        from this az show ?thesis by (rule blocked_False)
      qed
      have "length q = length w1 + length rest"
        using q by (metis length_append)
      then have len: "length z < length q"
        using w1(1) repeats_length [of w1 rest] by (cases w1) (simp_all add: z_def)
      have ih: "sub_words False (z @ w @ y) = sub_words False z @ sub_words False (w @ y)"
        using "1.IH" [rule_format, of z] len bz lastz by blast
      have are': "at_word_end (rest @ w @ y)"
        using rest are by (cases rest) (simp_all add: at_word_end_def)
      have "sub_words False (q @ w @ y) = w1 @ sub_words False (repeats w1 (rest @ w @ y))"
        using sub_words_token [OF w1 are'] q by simp
      moreover have "sub_words False q = w1 @ sub_words False z"
        using sub_words_token [OF w1 are] q z_def by simp
      ultimately show ?thesis using ra ih by simp
    qed
  qed
qed

lemma word_before_decomp:
  assumes "p = q0 @ v @ ws" "v \<noteq> []" "\<forall>c\<in>set v. isword c" "\<forall>c\<in>set ws. isspace c"
    "q0 \<noteq> [] \<longrightarrow> \<not> isword (last q0)"
  shows "word_before p = v"
proof -
  have "rev p = rev ws @ rev v @ rev q0" using assms(1) by simp
  moreover have "\<not> isspace (hd (rev v))"
    using assms(2,3) word_not_space by (simp add: hd_rev)
  then have "dropWhile isspace (rev ws @ rev v @ rev q0) = rev v @ rev q0"
    using assms(2,4) by (cases "rev v") (simp_all add: dropWhile_append3)
  moreover have "at_word_end (rev q0)"
    using assms(5) by (cases "rev q0") (auto simp add: at_word_end_def hd_rev)
  then have "takeWhile isword (rev v @ rev q0) = rev v"
    using assms(3) by (intro takeWhile_word) simp
  ultimately show ?thesis
    by (simp add: word_before_def del: takeWhile_append dropWhile_append)
qed

lemma blocked_word_before:
  assumes "map lower_char (word_before p) \<noteq> map lower_char w"
  shows "blocked False p w"
  unfolding blocked_def
proof (intro allI impI)
  fix q0 v ws
  assume "p = q0 @ v @ ws \<and> v \<noteq> [] \<and> (\<forall>c\<in>set v. isword c) \<and>
        ws \<noteq> [] \<and> (\<forall>c\<in>set ws. isspace c) \<and> (q0 = [] \<longrightarrow> \<not> False) \<and>
        (q0 \<noteq> [] \<longrightarrow> \<not> isword (last q0))"
  then have "word_before p = v"
    by (intro word_before_decomp [of p q0 v ws]) simp_all
  with assms show "map lower_char v \<noteq> map lower_char w" by simp
qed


lemma sub_words_run:
  assumes "w \<noteq> []" "\<forall>c\<in>set w. isword c" "reps \<noteq> []"
    "\<forall>(sep, v)\<in>set reps. sep \<noteq> [] \<and> (\<forall>c\<in>set sep. isspace c) \<and>
        map lower_char v = map lower_char w"
    "at_word_end s" "repetition w s = None"
  shows "sub_words False (w @ run_text reps @ s) = w @ sub_words False s"
proof -
  have "repeats w (run_text reps @ s) = s"
    using assms(4)
  proof (induction reps)
    case Nil
    with assms(6) show ?case by (simp add: repeats.simps)
  next
    case (Cons a reps)
    obtain sep v where a: "a = (sep, v)" by (cases a)
    have v: "map lower_char v = map lower_char w" "v \<noteq> []"
      using Cons.prems a assms(1) by auto
    then have vw: "\<forall>c\<in>set v. isword c"
      using assms(2) lower_all_word by blast
    have sep: "sep \<noteq> []" "\<forall>c\<in>set sep. isspace c"
      using Cons.prems a by auto
    define x where "x = run_text reps @ s"
    have ts: "takeWhile isspace (sep @ v @ x) = sep"
      using sep v(2) vw word_not_space by (cases v) (simp_all add: takeWhile_tail)
    have ds: "dropWhile isspace (sep @ v @ x) = v @ x"
      using sep v(2) vw word_not_space by (cases v) (simp_all add: dropWhile_append3)
    have "at_word_end x"
    proof (cases reps)
      case Nil
      with assms(5) show ?thesis by (simp add: x_def)
    next
      case (Cons b reps')
      obtain sep' v' where "b = (sep', v')" by (cases b)
      with Cons Cons.prems obtain c cs where "sep' = c # cs" "isspace c"
        by (cases sep') auto
      with Cons \<open>b = (sep', v')\<close> show ?thesis
        using word_not_space by (auto simp add: x_def at_word_end_def)
    qed
    then have "takeWhile isword (v @ x) = v" "dropWhile isword (v @ x) = x"
      using vw by (simp_all only: takeWhile_word dropWhile_word)
    with ts ds v(1) sep(1) have "repetition w (sep @ v @ x) = Some x"
      unfolding repetition_token [OF assms(1,2)] by simp
    then have "repeats w (run_text (a # reps) @ s) = repeats w (run_text reps @ s)"
      using a by (subst repeats.simps) (simp add: x_def)
    with Cons show ?case by simp
  qed
  moreover have "at_word_end (run_text reps @ s)"
  proof -
    obtain sep v reps' where "reps = (sep, v) # reps'"
      using assms(3) by (cases reps) auto
    with assms(4) obtain c cs where "sep = c # cs" "isspace c"
      by (cases sep) auto
    with \<open>reps = (sep, v) # reps'\<close> show ?thesis
      using word_not_space by (auto simp add: at_word_end_def)
  qed
  ultimately show ?thesis
    using sub_words_token [OF assms(1,2), of "run_text reps @ s"] by simp
qed

subsection \<open>The claims\<close>




text \<open>
  C2 (as stated). Cleaning "a b c c a b c d e f" collapses "c c" and gives
  "a b c a b c d e f", in which the three-word windows "a b c" and "a b c" are now adjacent;
  cleaning that result again gives "a b c d e f".
\<close>

theorem cleaning_idempotence_counterexample:
  "clean_repetitions no_templates ''a b c c a b c d e f'' = Inr ''a b c a b c d e f''
   \<and> clean_repetitions no_templates ''a b c a b c d e f'' = Inr ''a b c d e f''"
  by code_simp

text \<open>
  C2 (amended). When the cleaned text has no two adjacent windows of 3, 4 or 5 words that
  are identical ignoring case (in particular when it has fewer than 6 words), cleaning it
  again returns it unchanged. The single-word pass by itself is idempotent on every text.
\<close>

theorem cleaning_idempotence:
  "(clean_repetitions pt t = Inr u \<and> \<not> repeated_window (str_split u)
      \<longrightarrow> clean_repetitions pt u = Inr u)
   \<and> sub_words False (sub_words False x) = sub_words False x"
proof (intro conjI impI)
  assume h: "clean_repetitions pt t = Inr u \<and> \<not> repeated_window (str_split u)"
  show "clean_repetitions pt u = Inr u"
  proof (cases "length (str_split t) < 6")
    case True
    with h have "u = t" by (simp add: clean_repetitions_def)
    with h show ?thesis by simp
  next
    case False
    with h have "(case phrase_loop pt (str_split t) [3 ..< 6] t of
        Inl e \<Rightarrow> Inl e | Inr c \<Rightarrow> Inr (sub_words False c)) = Inr u"
      unfolding clean_repetitions_def Let_def by (simp only: if_False)
    then obtain c where "sub_words False c = u"
      by (cases "phrase_loop pt (str_split t) [3 ..< 6] t") auto
    then have u: "u = sub_words False c" by simp
    have pl: "phrase_loop pt (str_split u) [3 ..< 6] u = Inr u"
    proof (rule phrase_loop_id, intro ballI impI)
      fix n i
      assume "n \<in> set [3 ..< 6]" "\<not> length (str_split u) < n * 2"
        "i \<in> set [0 ..< length (str_split u) - n * 2 + 1]"
      with h show "str_lower (join '' '' (take n (drop i (str_split u))))
         \<noteq> str_lower (join '' '' (take n (drop (i + n) (str_split u))))"
        unfolding repeated_window_def by blast
    qed
    have sw: "sub_words False u = u"
      unfolding u by (rule sub_words_idempotent)
    show ?thesis
    proof (cases "length (str_split u) < 6")
      case True
      then show ?thesis by (simp add: clean_repetitions_def)
    next
      case False
      then show ?thesis
        unfolding clean_repetitions_def Let_def pl using sw by simp
    qed
  qed
next
  show "sub_words False (sub_words False x) = sub_words False x"
    by (rule sub_words_idempotent)
qed

theorem cleaning_idempotence_witness:
  "clean_repetitions no_templates ''a a b c d e f g g'' = Inr ''a b c d e f g''
   \<and> \<not> repeated_window (str_split ''a b c d e f g'')
   \<and> clean_repetitions no_templates ''a b c d e f g'' = Inr ''a b c d e f g''"
proof -
  have 1: "clean_repetitions no_templates ''a a b c d e f g g'' = Inr ''a b c d e f g''"
    by code_simp
  have 2: "\<not> repeated_window (str_split ''a b c d e f g'')"
    by code_simp
  show ?thesis
    using cleaning_idempotence [of no_templates "''a a b c d e f g g''" "''a b c d e f g''"] 1 2
    by simp
qed

text \<open>
  C10. In the single-word pass, a word followed by one or more further occurrences of it
  (in any letter case, each after some whitespace) is replaced by its first occurrence
  alone, whatever the number of occurrences. The run is maximal: the text \<open>p\<close> before it
  does not end inside a word nor with an occurrence of the word and whitespace, and the
  text \<open>s\<close> after it does not start inside a word nor with whitespace and an occurrence of
  the word. The texts before and after are processed as they are on their own.
\<close>

theorem run_collapsing:
  assumes "w \<noteq> []" "\<forall>c\<in>set w. isword c" "reps \<noteq> []"
    "\<forall>(sep, v)\<in>set reps. sep \<noteq> [] \<and> (\<forall>c\<in>set sep. isspace c) \<and>
        map lower_char v = map lower_char w"
    "p = [] \<or> \<not> isword (last p)" "map lower_char (word_before p) \<noteq> map lower_char w"
    "at_word_end s" "map lower_char (word_after s) \<noteq> map lower_char w"
  shows "sub_words False (p @ w @ run_text reps @ s)
       = sub_words False p @ w @ sub_words False s"
proof -
  have none: "repetition w s = None"
    unfolding repetition_token [OF assms(1,2)] using assms(8) by (simp add: word_after_def)
  have end_run: "at_word_end (run_text reps @ s)"
  proof -
    obtain sep v reps' where "reps = (sep, v) # reps'"
      using assms(3) by (cases reps) auto
    with assms(4) obtain c cs where "sep = c # cs" "isspace c"
      by (cases sep) auto
    with \<open>reps = (sep, v) # reps'\<close> show ?thesis
      using word_not_space by (auto simp add: at_word_end_def)
  qed
  have "blocked False p w"
    using assms(6) by (rule blocked_word_before)
  then have "sub_words False (p @ w @ run_text reps @ s)
      = sub_words False p @ sub_words False (w @ run_text reps @ s)"
    using assms(1,2) end_run assms(5) by (intro sub_words_append)
  moreover have "sub_words False (w @ run_text reps @ s) = w @ sub_words False s"
    using assms(1,2,3,4,7) none by (rule sub_words_run)
  ultimately show ?thesis by simp
qed

theorem run_collapsing_witness:
  "sub_words False (''went to '' @ ''the'' @ run_text [('' '', ''The''), (''  '', ''THE'')] @ '' store'')
     = ''went to the store''"
proof -
  have 1: "''the'' \<noteq> []" "\<forall>c\<in>set ''the''. isword c"
    "[('' '', ''The''), (''  '', ''THE'')] \<noteq> []"
    by code_simp+
  have 2: "\<forall>(sep, v)\<in>set [('' '', ''The''), (''  '', ''THE'')].
      sep \<noteq> [] \<and> (\<forall>c\<in>set sep. isspace c) \<and> map lower_char v = map lower_char ''the''"
    by code_simp
  have 3: "''went to '' = [] \<or> \<not> isword (last ''went to '')"
    "map lower_char (word_before ''went to '') \<noteq> map lower_char ''the''"
    "at_word_end '' store''"
    "map lower_char (word_after '' store'') \<noteq> map lower_char ''the''"
    by code_simp+
  have 4: "sub_words False ''went to '' = ''went to ''" "sub_words False '' store'' = '' store''"
    by code_simp+
  show ?thesis
    using run_collapsing [OF 1 2 3] 4 by simp
qed

section \<open>Properties of the densifier\<close>

text \<open>
  C9. When the body of \<^verbatim>\<open>_ensure_filler_words\<close> raises an exception, the function returns
  the transcript it was given; the exception does not reach the caller (the result is a
  string in every case). The body raises when \<^verbatim>\<open>AudioSegment.from_file\<close> does.
\<close>

theorem densification_failure:
  "(ensure_filler_words_try k ff rnd t a = Inl x \<longrightarrow> ensure_filler_words k ff rnd t a = t)
   \<and> (ff a = Some x \<longrightarrow> ensure_filler_words_try k ff rnd t a = Inl x)"
  by (simp add: ensure_filler_words_def ensure_filler_words_try_def)

theorem densification_failure_witness:
  "(\<lambda>p. Some (Error ''decode'')) ''a.wav'' = Some (Error ''decode'')
   \<and> ensure_filler_words_try 10 (\<lambda>p. Some (Error ''decode'')) (\<lambda>n. 0) ''hello there'' ''a.wav''
       = Inl (Error ''decode'')
   \<and> ensure_filler_words 10 (\<lambda>p. Some (Error ''decode'')) (\<lambda>n. 0) ''hello there'' ''a.wav''
       = ''hello there''"
  using densification_failure [of 10 "\<lambda>p. Some (Error ''decode'')" "\<lambda>n. 0" "''hello there''"
      "''a.wav''" "Error ''decode''"]
  by simp

text \<open>
  The transcript \<open>crowded\<close> evaluated piece by piece: its counts, its segments, the
  words of each segment, and the two replacements.
\<close>

lemma crowded_counts:
  "count_fillers False (str_lower crowded) = 1" "length (str_split crowded) = 55"
  by code_simp+

lemma crowded_segments:
  "findall_segments False crowded = [''um x a b c d e f g h i j k l m n.'', '' a b c d e f g h i j k l m n.'', '' pa pb pc pd pe,'', '' qa qb qc qd qe,'', '' ra rb rc rd re,'', '' sa sb sc sd se,'', '' ta tb tc td te.'', []]"
  by code_simp

lemma crowded_segment_words:
  "count_fillers False (str_lower ''um x a b c d e f g h i j k l m n.'') = 1"
  "count_fillers False (str_lower '' a b c d e f g h i j k l m n.'') = 0"
  "str_split '' a b c d e f g h i j k l m n.'' = [''a'', ''b'', ''c'', ''d'', ''e'', ''f'', ''g'', ''h'', ''i'', ''j'', ''k'', ''l'', ''m'', ''n.'']"
  "length (str_strip '' a b c d e f g h i j k l m n.'') = 28"
  "length (str_split '' pa pb pc pd pe,'') = 5" "length (str_split '' qa qb qc qd qe,'') = 5" "length (str_split '' ra rb rc rd re,'') = 5"
  "length (str_split '' sa sb sc sd se,'') = 5" "length (str_split '' ta tb tc td te.'') = 5" "length (str_split []) = 0"
  by code_simp+

lemma crowded_replace:
  "str_replace '' a b c d e f g h i j k l m n.'' ''a b c d e f g um h i j k l m n.'' crowded = ''um xa b c d e f g um h i j k l m n.a b c d e f g um h i j k l m n. pa pb pc pd pe, qa qb qc qd qe, ra rb rc rd re, sa sb sc sd se, ta tb tc td te.''"
  "str_replace '' a b c d e f g h i j k l m n.'' ''a b c d e f g uh h i j k l m n.'' crowded = ''um xa b c d e f g uh h i j k l m n.a b c d e f g uh h i j k l m n. pa pb pc pd pe, qa qb qc qd qe, ra rb rc rd re, sa sb sc sd se, ta tb tc td te.''"
  by code_simp+

lemma densify_crowded:
  assumes "10 \<le> k" "k \<le> 13" "ff a = None"
  shows "ensure_filler_words k ff rnd crowded a =
     (if rnd 0 > 0.5 then ''um xa b c d e f g um h i j k l m n.a b c d e f g um h i j k l m n. pa pb pc pd pe, qa qb qc qd qe, ra rb rc rd re, sa sb sc sd se, ta tb tc td te.'' else ''um xa b c d e f g uh h i j k l m n.a b c d e f g uh h i j k l m n. pa pb pc pd pe, qa qb qc qd qe, ra rb rc rd re, sa sb sc sd se, ta tb tc td te.'')"
proof (cases "rnd 0 > 0.5")
  case True
  with assms show ?thesis
    by (simp add: ensure_filler_words_def ensure_filler_words_try_def Let_def crowded_counts
        crowded_segments crowded_segment_words crowded_replace)
next
  case False
  with assms show ?thesis
    by (simp add: ensure_filler_words_def ensure_filler_words_try_def Let_def crowded_counts
        crowded_segments crowded_segment_words crowded_replace)
qed

lemma crowded_x:
  "''x'' \<in> set (str_split crowded)"
  "''x'' \<notin> set (str_split ''um xa b c d e f g um h i j k l m n.a b c d e f g um h i j k l m n. pa pb pc pd pe, qa qb qc qd qe, ra rb rc rd re, sa sb sc sd se, ta tb tc td te.'')"
  "''x'' \<notin> set (str_split ''um xa b c d e f g uh h i j k l m n.a b c d e f g uh h i j k l m n. pa pb pc pd pe, qa qb qc qd qe, ra rb rc rd re, sa sb sc sd se, ta tb tc td te.'')"
  by code_simp+

text \<open>
  C1. The transcript \<open>crowded\<close> has 55 words and one filler. Whether the length bound is
  10 or 13 and whatever the random draw, when the audio file loads, the segment
  " a b c d e f g h i j k l m n." qualifies for an insertion; it is rebuilt from its words
  without its leading blank, and \<^verbatim>\<open>str.replace\<close> puts the rebuilt text at both places
  where the segment occurs. The words "x" and "a" of the transcript become "xa", and "n."
  and "a" become "n.a": the word "x" of the transcript is not a word of the result.
\<close>

theorem densification_merges_words:
  assumes "10 \<le> k" "k \<le> 13" "ff a = None"
  shows "ensure_filler_words k ff rnd crowded a =
      (if rnd 0 > 0.5
       then ''um xa b c d e f g um h i j k l m n.a b c d e f g um h i j k l m n. pa pb pc pd pe, qa qb qc qd qe, ra rb rc rd re, sa sb sc sd se, ta tb tc td te.''
       else ''um xa b c d e f g uh h i j k l m n.a b c d e f g uh h i j k l m n. pa pb pc pd pe, qa qb qc qd qe, ra rb rc rd re, sa sb sc sd se, ta tb tc td te.'')
    \<and> ''x'' \<in> set (str_split crowded)
    \<and> ''x'' \<notin> set (str_split (ensure_filler_words k ff rnd crowded a))"
  using densify_crowded [of k ff a rnd] assms crowded_x by simp

theorem densification_merges_words_witness:
  "(10::nat) \<le> 10 \<and> (10::nat) \<le> 13 \<and> (\<lambda>p. None :: error option) ''a.wav'' = None
   \<and> ensure_filler_words 10 (\<lambda>p. None) (\<lambda>n. 1) crowded ''a.wav''
       = ''um xa b c d e f g um h i j k l m n.a b c d e f g um h i j k l m n. pa pb pc pd pe, qa qb qc qd qe, ra rb rc rd re, sa sb sc sd se, ta tb tc td te.''
   \<and> ''x'' \<in> set (str_split crowded)
   \<and> ''x'' \<notin> set (str_split (ensure_filler_words 10 (\<lambda>p. None) (\<lambda>n. 1) crowded ''a.wav''))"
  using densification_merges_words [of 10 "\<lambda>p. None" "''a.wav''" "\<lambda>n. 1"]
  by (simp cong: conj_cong)

section \<open>Properties of the orchestrator\<close>

text \<open>
  C7. The dictionary that \<^verbatim>\<open>transcribe\<close> returns has \<^verbatim>\<open>success\<close> true and no \<^verbatim>\<open>error\<close>
  entry, or \<^verbatim>\<open>success\<close> false and an \<^verbatim>\<open>error\<close> entry that is a string.
\<close>

theorem result_dichotomy:
  "(fst (transcribe e video_path audio_path) ''success'' = Some (Bool True) \<and>
    fst (transcribe e video_path audio_path) ''error'' = None)
   \<or> (fst (transcribe e video_path audio_path) ''success'' = Some (Bool False) \<and>
       (\<exists>msg. fst (transcribe e video_path audio_path) ''error'' = Some (Str msg)))"
  by (auto simp add: transcribe_def transcribe_try_def Let_def
      split: if_splits option.splits sum.splits prod.splits error.splits)

text \<open>
  C6 (as stated). The \<^verbatim>\<open>finally\<close> block ignores a failing \<^verbatim>\<open>os.remove\<close>: the call succeeds
  and the temporary audio file it created is still there afterwards.
\<close>

theorem cleanup_guarantee_counterexample:
  "''t.wav'' \<notin> files env0 \<and> ''t.wav'' \<in> snd (transcribe env0 ''v.mp4'' None)
   \<and> fst (transcribe env0 ''v.mp4'' None) ''success'' = Some (Bool True)"
  by (simp add: env0_def transcribe_def transcribe_try_def extract_audio_def Let_def
      clean_repetitions_def str_strip_def str_split_def isspace_def)

text \<open>
  C6 (amended). On every exit path of \<^verbatim>\<open>transcribe\<close> the \<^verbatim>\<open>finally\<close> block removes the
  temporary files listed in \<^verbatim>\<open>temp_files\<close>, ignoring a removal that fails. When
  \<^verbatim>\<open>os.remove\<close> succeeds on the temporary audio path, the name was fresh, and a failed
  extraction left no file behind, the paths that exist after the call are those that
  existed before it.
\<close>

theorem cleanup_guarantee:
  "remove_ok e (mktemp e) \<Longrightarrow> mktemp e \<notin> files e \<Longrightarrow>
   (case ffmpeg e of Extracted \<Rightarrow> True | Extraction_failed left msg \<Rightarrow> \<not> left) \<Longrightarrow>
   snd (transcribe e video_path audio_path) = files e"
  by (auto simp add: transcribe_def transcribe_try_def extract_audio_def Let_def
      split: if_splits option.splits sum.splits prod.splits error.splits extraction.splits)

theorem cleanup_guarantee_witness:
  "remove_ok (env0\<lparr>remove_ok := (\<lambda>p. True)\<rparr>) (mktemp (env0\<lparr>remove_ok := (\<lambda>p. True)\<rparr>))
   \<and> mktemp (env0\<lparr>remove_ok := (\<lambda>p. True)\<rparr>) \<notin> files (env0\<lparr>remove_ok := (\<lambda>p. True)\<rparr>)
   \<and> ffmpeg (env0\<lparr>remove_ok := (\<lambda>p. True)\<rparr>) = Extracted
   \<and> snd (transcribe (env0\<lparr>remove_ok := (\<lambda>p. True)\<rparr>) ''v.mp4'' None) = {''v.mp4''}"
  using cleanup_guarantee [of "env0\<lparr>remove_ok := (\<lambda>p. True)\<rparr>" "''v.mp4''" None]
  by (simp add: env0_def)

end
